theory Spec2Isabelle
  imports Main "HOL-Library.Multiset"
begin

section \<open>Strings\<close>

text \<open>
  A JavaScript string is a sequence of UTF-16 code units. The model covers the strings
  whose code units are all below 256 (the Latin-1 range, which holds every character of
  a DNS name): such a string is a \<open>char list\<close>, the character \<open>c\<close> being the code
  unit \<open>of_char c\<close>.
\<close>

definition isWhiteSpace :: "char \<Rightarrow> bool" where
  \<comment> \<open>the WhiteSpace and LineTerminator code points below 256: TAB, LF, VT, FF, CR, SP, NBSP\<close>
  "isWhiteSpace c = ((of_char c :: nat) \<in> {9, 10, 11, 12, 13, 32, 160})"

definition trim :: "string \<Rightarrow> string" where
  "trim s = rev (dropWhile isWhiteSpace (rev (dropWhile isWhiteSpace s)))"

definition toLowerCase_unit :: "char \<Rightarrow> char" where
  \<comment> \<open>Unicode lower-case mapping below 256: A-Z, and the Latin-1 capitals except the
      multiplication sign\<close>
  "toLowerCase_unit c =
     (let n = (of_char c :: nat)
      in if (65 \<le> n \<and> n \<le> 90) \<or> (192 \<le> n \<and> n \<le> 222 \<and> n \<noteq> 215)
         then char_of (n + 32) else c)"

definition toLowerCase :: "string \<Rightarrow> string" where
  "toLowerCase s = map toLowerCase_unit s"

definition endsWith :: "string \<Rightarrow> string \<Rightarrow> bool" where
  \<comment> \<open>\<open>n.endsWith(d)\<close>: the last \<open>length d\<close> code units of \<open>n\<close> are \<open>d\<close>\<close>
  "endsWith n d = (length d \<le> length n \<and> drop (length n - length d) n = d)"

fun split_newline :: "string \<Rightarrow> string list" where
  \<comment> \<open>\<open>s.split("\n")\<close>; the empty string splits into one empty piece\<close>
  "split_newline [] = [[]]"
| "split_newline (c # cs) =
     (if c = CHR 0x0A then [] # split_newline cs
      else (case split_newline cs of [] \<Rightarrow> [[c]] | piece # pieces \<Rightarrow> (c # piece) # pieces))"

fun replace_wildcard :: "string \<Rightarrow> string" where
  \<comment> \<open>\<open>n.replace(/^\*\./, "")\<close>: one match at most, anchored at the start\<close>
  "replace_wildcard (a # b # r) = (if a = CHR ''*'' \<and> b = CHR ''.'' then r else a # b # r)"
| "replace_wildcard n = n"

fun code_unit_le :: "string \<Rightarrow> string \<Rightarrow> bool" where
  \<comment> \<open>the order of the default \<open>Array.prototype.sort\<close> on strings: lexicographic by code unit\<close>
  "code_unit_le [] _ = True"
| "code_unit_le (x # xs) [] = False"
| "code_unit_le (x # xs) (y # ys) =
     ((of_char x :: nat) < of_char y \<or> (x = y \<and> code_unit_le xs ys))"

section \<open>Insertion-ordered sets and stable sorting\<close>

definition set_add :: "'a \<Rightarrow> 'a list \<Rightarrow> 'a list" where
  \<comment> \<open>\<open>Set.prototype.add\<close> on a set kept as the list of its elements in insertion order\<close>
  "set_add x s = (if x \<in> set s then s else s @ [x])"

fun insert_sorted :: "('a \<Rightarrow> 'a \<Rightarrow> bool) \<Rightarrow> 'a \<Rightarrow> 'a list \<Rightarrow> 'a list" where
  "insert_sorted le x [] = [x]"
| "insert_sorted le x (y # ys) =
     (if le x y then x # y # ys else y # insert_sorted le x ys)"

definition array_sort :: "('a \<Rightarrow> 'a \<Rightarrow> bool) \<Rightarrow> 'a list \<Rightarrow> 'a list" where
  \<comment> \<open>\<open>Array.prototype.sort\<close> is stable; with a consistent comparator its result is the
      stable sort, computed here by insertion from the right (an element goes before the
      elements after it that it does not exceed)\<close>
  "array_sort le xs = foldr (insert_sorted le) xs []"

section \<open>The certificate-log query (\<open>fetchSubdomains\<close>)\<close>

datatype json =
    JNull
  | JBool bool
  | JNum int
  | JStr string
  | JArr "json list"
  | JObj "(string \<times> json) list"

datatype js_error =
    AxiosError string
  | TypeError
  | DnsError string

datatype http_result =
    Rejected string
  | Resolved json

text \<open>
  The values of \<open>JSON.parse\<close>. A number is kept as an integer: the code only asks whether
  it is zero. An object is the list of its members in the order of the text.

  \<open>axios.get\<close> rejects on a network error, on a timeout and on a status outside 2xx
  (\<open>Rejected\<close> with the error's message); otherwise it resolves with \<open>res.data\<close>, the
  parsed body, or the body as a string when it is not JSON.
\<close>

definition name_value :: "json \<Rightarrow> js_error + json option" where
  \<comment> \<open>\<open>entry.name_value\<close>: reading a property of \<open>null\<close> throws, a missing property is
      \<open>undefined\<close> (\<open>None\<close>), the last of several equal keys wins\<close>
  "name_value entry =
     (case entry of
        JNull \<Rightarrow> Inl TypeError
      | JObj kvs \<Rightarrow> Inr (map_of (rev kvs) ''name_value'')
      | _ \<Rightarrow> Inr None)"

definition or_empty :: "json option \<Rightarrow> json" where
  \<comment> \<open>\<open>v || ""\<close>: the falsy values are \<open>undefined\<close>, \<open>null\<close>, \<open>false\<close>, \<open>0\<close> and \<open>""\<close>\<close>
  "or_empty v =
     (case v of
        None \<Rightarrow> JStr []
      | Some JNull \<Rightarrow> JStr []
      | Some (JBool b) \<Rightarrow> (if b then JBool b else JStr [])
      | Some (JNum n) \<Rightarrow> (if n = 0 then JStr [] else JNum n)
      | Some w \<Rightarrow> w)"

definition split_names :: "json \<Rightarrow> js_error + string list" where
  \<comment> \<open>\<open>v.split("\n")\<close>: only a string has the method, calling it on another value throws\<close>
  "split_names v = (case v of JStr s \<Rightarrow> Inr (split_newline s) | _ \<Rightarrow> Inl TypeError)"

definition entry_names :: "json \<Rightarrow> js_error + string list" where
  \<comment> \<open>\<open>(entry.name_value || "").split("\n")\<close>\<close>
  "entry_names entry =
     (case name_value entry of
        Inl err \<Rightarrow> Inl err
      | Inr v \<Rightarrow> split_names (or_empty v))"

definition normalize_name :: "string \<Rightarrow> string \<Rightarrow> string option" where
  \<comment> \<open>the body of the inner loop: the name the candidate \<open>n\<close> adds to \<open>subs\<close>, if any\<close>
  "normalize_name n domain =
     (let n1 = replace_wildcard (trim n)
      in if endsWith n1 domain then Some (toLowerCase n1) else None)"

definition add_name :: "string \<Rightarrow> string \<Rightarrow> string list \<Rightarrow> string list" where
  "add_name domain n subs =
     (case normalize_name n domain of None \<Rightarrow> subs | Some h \<Rightarrow> set_add h subs)"

fun collect_entries :: "string \<Rightarrow> json list \<Rightarrow> string list \<Rightarrow> js_error + string list" where
  \<comment> \<open>the loop over \<open>res.data\<close>; an exception leaves the loop\<close>
  "collect_entries domain [] subs = Inr subs"
| "collect_entries domain (entry # entries) subs =
     (case entry_names entry of
        Inl err \<Rightarrow> Inl err
      | Inr names \<Rightarrow> collect_entries domain entries (fold (add_name domain) names subs))"

definition fetchSubdomains_try :: "string \<Rightarrow> http_result \<Rightarrow> js_error + string list" where
  \<comment> \<open>the \<open>try\<close> block\<close>
  "fetchSubdomains_try domain res =
     (case res of
        Rejected msg \<Rightarrow> Inl (AxiosError msg)
      | Resolved data \<Rightarrow>
          (case (case data of JArr entries \<Rightarrow> collect_entries domain entries [] | _ \<Rightarrow> Inr [])
           of Inl err \<Rightarrow> Inl err
            | Inr subs \<Rightarrow> Inr (array_sort code_unit_le subs)))"

definition fetchSubdomains :: "string \<Rightarrow> http_result \<Rightarrow> js_error + string list" where
  \<comment> \<open>\<open>try\<close> and \<open>catch\<close>: \<open>Inl\<close> would be an exception that leaves the function\<close>
  "fetchSubdomains domain res =
     (case fetchSubdomains_try domain res of
        Inl err \<Rightarrow> Inr []
      | Inr subs \<Rightarrow> Inr subs)"

section \<open>The resolver (\<open>resolveHost\<close>)\<close>

record lookup_address =
  address :: string
  family :: nat

text \<open>
  The DNS module, as \<open>resolveHost\<close> sees it: each call on a host name either resolves
  with its records or rejects with an error whose code (\<open>ENOTFOUND\<close>, \<open>ENODATA\<close>,
  \<open>ETIMEOUT\<close>, ...) is the string of \<open>DnsError\<close>.
\<close>

record dns =
  lookup :: "string \<Rightarrow> js_error + lookup_address list"
  resolve4 :: "string \<Rightarrow> js_error + string list"
  resolve6 :: "string \<Rightarrow> js_error + string list"

definition resolveHost :: "dns \<Rightarrow> string \<Rightarrow> js_error + string list" where
  \<comment> \<open>three \<open>try\<close> blocks with an empty \<open>catch\<close> each, then \<open>return [...ips]\<close>\<close>
  "resolveHost d host =
     (let ips0 = [];
          ips1 = (case lookup d host of
                    Inl err \<Rightarrow> ips0
                  | Inr rs \<Rightarrow> fold (\<lambda>r. set_add (address r)) rs ips0);
          ips2 = (case resolve4 d host of
                    Inl err \<Rightarrow> ips1
                  | Inr a \<Rightarrow> fold set_add a ips1);
          ips3 = (case resolve6 d host of
                    Inl err \<Rightarrow> ips2
                  | Inr aaaa \<Rightarrow> fold set_add aaaa ips2)
      in Inr ips3)"

datatype dns_call =
    Lookup string "(string \<times> json) list option"
  | Resolve4 string "(string \<times> json) list option"
  | Resolve6 string "(string \<times> json) list option"

definition resolveHost_calls :: "string \<Rightarrow> dns_call list" where
  \<comment> \<open>the calls \<open>resolveHost\<close> makes, with the arguments it passes: the host, and the
      options object when there is one\<close>
  "resolveHost_calls host =
     [Lookup host (Some [(''all'', JBool True)]), Resolve4 host None, Resolve6 host None]"

fun call_options :: "dns_call \<Rightarrow> (string \<times> json) list" where
  "call_options (Lookup h opts) = (case opts of None \<Rightarrow> [] | Some kvs \<Rightarrow> kvs)"
| "call_options (Resolve4 h opts) = (case opts of None \<Rightarrow> [] | Some kvs \<Rightarrow> kvs)"
| "call_options (Resolve6 h opts) = (case opts of None \<Rightarrow> [] | Some kvs \<Rightarrow> kvs)"

definition has_timeout :: "dns_call \<Rightarrow> bool" where
  "has_timeout c = (map_of (call_options c) ''timeout'' \<noteq> None)"

section \<open>The scheduler (\<open>concurrencyMap\<close>)\<close>

datatype ('a, 'r) outcome =
    Result (item: 'a) 'r
  | Error (item: 'a) js_error

text \<open>
  The state of one run: the shared cursor \<open>index\<close>, the array \<open>out\<close>, the mapper
  promises that are awaited (\<open>pending\<close>: the worker that awaits and the item it passed),
  and the log of the items the mapper was called with (\<open>calls\<close>). A worker is either
  in \<open>pending\<close> or has returned.
\<close>

record ('a, 'r) sched =
  index :: nat
  out :: "('a, 'r) outcome list"
  pending :: "(nat \<times> 'a) list"
  calls :: "'a list"

definition worker_claim :: "'a list \<Rightarrow> nat \<Rightarrow> ('a, 'r) sched \<Rightarrow> ('a, 'r) sched" where
  \<comment> \<open>worker \<open>w\<close> from \<open>const i = index++\<close> to its return or its next \<open>await mapper(item)\<close>\<close>
  "worker_claim items w st =
     (let i = index st;
          st1 = st\<lparr>index := i + 1\<rparr>
      in if i \<ge> length items then st1
         else st1\<lparr>calls := calls st1 @ [items ! i],
                  pending := pending st1 @ [(w, items ! i)]\<rparr>)"

definition start :: "'a list \<Rightarrow> nat \<Rightarrow> ('a, 'r) sched" where
  \<comment> \<open>\<open>Array.from({ length: concurrency }, ...)\<close>: the workers start one after the other,
      each running to its first \<open>await\<close>\<close>
  "start items concurrency =
     fold (worker_claim items) [0..<concurrency] \<lparr>index = 0, out = [], pending = [], calls = []\<rparr>"

definition record_outcome :: "('a \<Rightarrow> js_error + 'r) \<Rightarrow> 'a \<Rightarrow> ('a, 'r) outcome" where
  \<comment> \<open>the \<open>try\<close>/\<open>catch\<close> around \<open>await mapper(item)\<close>\<close>
  "record_outcome mapper x =
     (case mapper x of Inr result \<Rightarrow> Result x result | Inl err \<Rightarrow> Error x err)"

definition settle :: "'a list \<Rightarrow> ('a \<Rightarrow> js_error + 'r) \<Rightarrow> nat \<Rightarrow> ('a, 'r) sched \<Rightarrow> ('a, 'r) sched" where
  \<comment> \<open>one awaited promise settles, the one at position \<open>n mod length (pending st)\<close>; its
      worker pushes the outcome and runs on to its return or its next \<open>await\<close>\<close>
  "settle items mapper n st =
     (if pending st = [] then st
      else let k = n mod length (pending st);
               w = fst (pending st ! k);
               x = snd (pending st ! k);
               st1 = st\<lparr>pending := take k (pending st) @ drop (Suc k) (pending st),
                        out := out st @ [record_outcome mapper x]\<rparr>
           in worker_claim items w st1)"

fun await_all :: "'a list \<Rightarrow> ('a \<Rightarrow> js_error + 'r) \<Rightarrow> ('a, 'r) sched \<Rightarrow> nat list \<Rightarrow> ('a, 'r) sched option" where
  \<comment> \<open>\<open>await Promise.all(workers)\<close>: done when no worker awaits; the schedule says which
      promise settles next, and \<open>None\<close> is a schedule that ends with promises unsettled\<close>
  "await_all items mapper st [] = (if pending st = [] then Some st else None)"
| "await_all items mapper st (n # ns) =
     (if pending st = [] then Some st
      else await_all items mapper (settle items mapper n st) ns)"

definition concurrencyMap_run :: "'a list \<Rightarrow> ('a \<Rightarrow> js_error + 'r) \<Rightarrow> nat \<Rightarrow> nat list \<Rightarrow> ('a, 'r) sched option" where
  "concurrencyMap_run items mapper concurrency schedule =
     await_all items mapper (start items concurrency) schedule"

definition concurrencyMap :: "'a list \<Rightarrow> ('a \<Rightarrow> js_error + 'r) \<Rightarrow> nat \<Rightarrow> nat list \<Rightarrow> ('a, 'r) outcome list option" where
  "concurrencyMap items mapper concurrency schedule =
     map_option out (concurrencyMap_run items mapper concurrency schedule)"

definition reached :: "'a list \<Rightarrow> ('a \<Rightarrow> js_error + 'r) \<Rightarrow> nat \<Rightarrow> nat list \<Rightarrow> ('a, 'r) sched" where
  \<comment> \<open>the state of a run after the settlements of a schedule\<close>
  "reached items mapper concurrency schedule =
     fold (settle items mapper) schedule (start items concurrency)"

section \<open>The main workflow (\<open>main\<close>)\<close>

definition MAX_CONCURRENT :: nat where
  "MAX_CONCURRENT = 20"

datatype log_line =
    Found nat
  | NoSubdomainsFound
  | Host string
  | Address string
  | Total_found nat
  | Successfully_resolved nat

definition by_item :: "(string \<Rightarrow> string \<Rightarrow> int) \<Rightarrow> (string, 'r) outcome \<Rightarrow> (string, 'r) outcome \<Rightarrow> bool" where
  \<comment> \<open>the comparator \<open>(a, b) => a.item.localeCompare(b.item)\<close> puts \<open>a\<close> first\<close>
  "by_item localeCompare a b = (localeCompare (item a) (item b) \<le> 0)"

fun print_resolved :: "(string, string list) outcome list \<Rightarrow> nat \<Rightarrow> log_line list \<times> nat" where
  \<comment> \<open>the \<open>for\<close> loop: the lines printed, and \<open>count\<close> after the loop\<close>
  "print_resolved [] cnt = ([], cnt)"
| "print_resolved (Result x result # rest) cnt =
     (if length result > 0
      then (case print_resolved rest (cnt + 1) of
              (ls, c) \<Rightarrow> (Host x # map Address result @ ls, c))
      else print_resolved rest cnt)"
| "print_resolved (Error x err # rest) cnt = print_resolved rest cnt"

definition report :: "(string \<Rightarrow> string \<Rightarrow> int) \<Rightarrow> string list \<Rightarrow> (string, string list) outcome list \<Rightarrow> log_line list" where
  \<comment> \<open>from \<open>let count = 0\<close> to the end of \<open>main\<close>\<close>
  "report localeCompare subdomains resolved =
     (case print_resolved (array_sort (by_item localeCompare) resolved) 0 of
        (ls, cnt) \<Rightarrow> ls @ [Total_found (length subdomains), Successfully_resolved cnt])"

definition main :: "(string \<Rightarrow> string \<Rightarrow> int) \<Rightarrow> string \<Rightarrow> http_result \<Rightarrow> dns \<Rightarrow> nat list \<Rightarrow> (js_error + log_line list) option" where
  \<comment> \<open>the lines \<open>main\<close> prints (banners left out); \<open>Some (Inl err)\<close> is a rejection of
      \<open>main\<close>, \<open>None\<close> a run whose lookups never all settle\<close>
  "main localeCompare arg res d schedule =
     (let domain = toLowerCase arg
      in case fetchSubdomains domain res of
           Inl err \<Rightarrow> Some (Inl err)
         | Inr subdomains \<Rightarrow>
             if length subdomains = 0 then Some (Inr [Found 0, NoSubdomainsFound])
             else (case concurrencyMap subdomains (resolveHost d) MAX_CONCURRENT schedule of
                     None \<Rightarrow> None
                   | Some resolved \<Rightarrow>
                       Some (Inr (Found (length subdomains) # report localeCompare subdomains resolved))))"

section \<open>The interactive variant (\<open>subdomain.js\<close>)\<close>

definition dyn_row_names :: "json \<Rightarrow> js_error + string list" where
  \<comment> \<open>\<open>row.name_value.split("\n")\<close>, with no default for a missing property\<close>
  "dyn_row_names row =
     (case name_value row of
        Inl err \<Rightarrow> Inl err
      | Inr None \<Rightarrow> Inl TypeError
      | Inr (Some v) \<Rightarrow> split_names v)"

definition dyn_normalize_name :: "string \<Rightarrow> string \<Rightarrow> string option" where
  "dyn_normalize_name sub domain =
     (let sub1 = toLowerCase (trim sub)
      in if sub1 \<noteq> [] \<and> endsWith sub1 domain then Some sub1 else None)"

definition dyn_add_name :: "string \<Rightarrow> string \<Rightarrow> string list \<Rightarrow> string list" where
  "dyn_add_name domain sub subs =
     (case dyn_normalize_name sub domain of None \<Rightarrow> subs | Some h \<Rightarrow> set_add h subs)"

fun dyn_collect_rows :: "string \<Rightarrow> json list \<Rightarrow> string list \<Rightarrow> js_error + string list" where
  "dyn_collect_rows domain [] subs = Inr subs"
| "dyn_collect_rows domain (row # rows) subs =
     (case dyn_row_names row of
        Inl err \<Rightarrow> Inl err
      | Inr parts \<Rightarrow> dyn_collect_rows domain rows (fold (dyn_add_name domain) parts subs))"

definition dyn_fetchSubdomains_try :: "string \<Rightarrow> http_result \<Rightarrow> js_error + string list" where
  \<comment> \<open>\<open>for (let row of res.data)\<close>: an array gives its elements, a string its characters
      (whose \<open>name_value\<close> is \<open>undefined\<close>), anything else is not iterable\<close>
  "dyn_fetchSubdomains_try domain res =
     (case res of
        Rejected msg \<Rightarrow> Inl (AxiosError msg)
      | Resolved data \<Rightarrow>
          (case data of
             JArr rows \<Rightarrow> dyn_collect_rows domain rows []
           | JStr s \<Rightarrow> (if s = [] then Inr [] else Inl TypeError)
           | _ \<Rightarrow> Inl TypeError))"

definition dyn_fetchSubdomains :: "string \<Rightarrow> http_result \<Rightarrow> js_error + string list" where
  "dyn_fetchSubdomains domain res =
     (case dyn_fetchSubdomains_try domain res of
        Inl err \<Rightarrow> Inr []
      | Inr subs \<Rightarrow> Inr subs)"

definition map_set :: "'k \<Rightarrow> 'v \<Rightarrow> ('k \<times> 'v) list \<Rightarrow> ('k \<times> 'v) list" where
  \<comment> \<open>\<open>Map.prototype.set\<close> on a map kept as its entries in insertion order\<close>
  "map_set k v m =
     (if k \<in> fst ` set m then map (\<lambda>e. if fst e = k then (k, v) else e) m else m @ [(k, v)])"

fun dyn_resolveSubdomains_loop :: "dns \<Rightarrow> string list \<Rightarrow> (string \<times> string list) list \<Rightarrow> (string \<times> string list) list" where
  \<comment> \<open>the loop with its empty \<open>catch\<close>: an unresolved name is skipped\<close>
  "dyn_resolveSubdomains_loop d [] liveMap = liveMap"
| "dyn_resolveSubdomains_loop d (sub # subs) liveMap =
     (case resolve4 d sub of
        Inl err \<Rightarrow> dyn_resolveSubdomains_loop d subs liveMap
      | Inr ips \<Rightarrow> dyn_resolveSubdomains_loop d subs (map_set sub ips liveMap))"

definition dyn_resolveSubdomains :: "dns \<Rightarrow> string list \<Rightarrow> (string \<times> string list) list" where
  "dyn_resolveSubdomains d subdomains = dyn_resolveSubdomains_loop d subdomains []"

section \<open>Notions used in the properties\<close>

definition sched_inv :: "'a list \<Rightarrow> ('a \<Rightarrow> js_error + 'r) \<Rightarrow> ('a, 'r) sched \<Rightarrow> bool" where
  \<comment> \<open>the mapper was called on the items below the cursor, in order, and each call is
      either awaited or has its outcome in \<open>out\<close>\<close>
  "sched_inv items mapper st =
     (calls st = take (index st) items \<and>
      mset (map (\<lambda>p. record_outcome mapper (snd p)) (pending st)) + mset (out st) =
        mset (map (record_outcome mapper) (calls st)))"

definition sched_live :: "'a list \<Rightarrow> ('a, 'r) sched \<Rightarrow> bool" where
  \<comment> \<open>the workers have all returned only when the cursor has passed the last item\<close>
  "sched_live items st = (pending st = [] \<longrightarrow> length items \<le> index st)"

definition strategy_addresses :: "js_error + string list \<Rightarrow> string set" where
  \<comment> \<open>the addresses one strategy found: none when it failed\<close>
  "strategy_addresses r = (case r of Inl err \<Rightarrow> {} | Inr ips \<Rightarrow> set ips)"

definition add_strategy :: "js_error + string list \<Rightarrow> string list \<Rightarrow> string list" where
  \<comment> \<open>one \<open>try\<close> block of \<open>resolveHost\<close>, as a function of the strategy's result\<close>
  "add_strategy r ips = (case r of Inl err \<Rightarrow> ips | Inr found \<Rightarrow> fold set_add found ips)"

definition lookup_addresses :: "js_error + lookup_address list \<Rightarrow> js_error + string list" where
  "lookup_addresses r = (case r of Inl err \<Rightarrow> Inl err | Inr rs \<Rightarrow> Inr (map address rs))"

definition query_failed :: "http_result \<Rightarrow> bool" where
  \<comment> \<open>a network error, a timeout or a status outside 2xx (the request rejects), or a
      body that is not a JSON array\<close>
  "query_failed res =
     (case res of
        Rejected msg \<Rightarrow> True
      | Resolved data \<Rightarrow> (case data of JArr entries \<Rightarrow> False | _ \<Rightarrow> True))"

fun has_addresses :: "('a, 'b list) outcome \<Rightarrow> bool" where
  \<comment> \<open>the host resolved to at least one address\<close>
  "has_addresses (Result x ips) = (ips \<noteq> [])"
| "has_addresses (Error x err) = False"

fun printed_hosts :: "log_line list \<Rightarrow> string list" where
  \<comment> \<open>the host names of a printout, in the order of their lines\<close>
  "printed_hosts [] = []"
| "printed_hosts (Host h # ls) = h # printed_hosts ls"
| "printed_hosts (l # ls) = printed_hosts ls"

fun host_lines :: "(string, string list) outcome \<Rightarrow> log_line list" where
  \<comment> \<open>the lines of one resolved host: its name, then its addresses\<close>
  "host_lines (Result x ips) = Host x # map Address ips"
| "host_lines (Error x err) = []"

definition consistent_comparator :: "(string \<Rightarrow> string \<Rightarrow> int) \<Rightarrow> bool" where
  \<comment> \<open>what \<open>Array.prototype.sort\<close> asks of its comparator: a total preorder\<close>
  "consistent_comparator cmp =
     ((\<forall>a b. cmp a b \<le> 0 \<or> cmp b a \<le> 0) \<and>
      (\<forall>a b c. cmp a b \<le> 0 \<longrightarrow> cmp b c \<le> 0 \<longrightarrow> cmp a c \<le> 0))"

definition code_unit_compare :: "string \<Rightarrow> string \<Rightarrow> int" where
  \<comment> \<open>a comparator for the examples: the order by code units\<close>
  "code_unit_compare a b = (if a = b then 0 else if code_unit_le a b then - 1 else 1)"

definition resolved0 :: "(string, string list) outcome list" where
  \<comment> \<open>outcomes for the examples: a failure, two resolved hosts, a host without addresses\<close>
  "resolved0 =
     [Error ''b.example.com'' (DnsError ''ETIMEOUT''), Result ''c.example.com'' [''192.0.2.3''],
      Result ''a.example.com'' [''192.0.2.1'', ''192.0.2.2''], Result ''d.example.com'' []]"

definition mapper0 :: "string \<Rightarrow> js_error + string list" where
  \<comment> \<open>a mapper for the examples: the lookup of \<open>b.example.com\<close> times out\<close>
  "mapper0 h =
     (if h = ''b.example.com'' then Inl (DnsError ''ETIMEOUT'') else Inr [''192.0.2.1''])"

definition dns0 :: dns where
  \<comment> \<open>a DNS for the examples: only \<open>api.example.com\<close> has records\<close>
  "dns0 =
     \<lparr>lookup = (\<lambda>h. if h = ''api.example.com''
                     then Inr [\<lparr>address = ''93.184.216.34'', family = 4\<rparr>]
                     else Inl (DnsError ''ENOTFOUND'')),
      resolve4 = (\<lambda>h. if h = ''api.example.com''
                       then Inr [''93.184.216.34'']
                       else Inl (DnsError ''ENOTFOUND'')),
      resolve6 = (\<lambda>h. if h = ''api.example.com''
                       then Inr [''2606:2800:220:1:248:1893:25c8:1946'']
                       else Inl (DnsError ''ETIMEOUT''))\<rparr>"

definition dns1 :: dns where
  \<comment> \<open>a DNS for the examples: \<open>b.example.com\<close> does not exist, \<open>v6.example.com\<close> has
      an AAAA record only, every other name has one A record\<close>
  "dns1 =
     \<lparr>lookup = (\<lambda>h. if h = ''b.example.com'' then Inl (DnsError ''ENOTFOUND'')
                     else if h = ''v6.example.com''
                     then Inr [\<lparr>address = ''2001:db8::1'', family = 6\<rparr>]
                     else Inr [\<lparr>address = ''192.0.2.1'', family = 4\<rparr>]),
      resolve4 = (\<lambda>h. if h = ''b.example.com'' then Inl (DnsError ''ENOTFOUND'')
                       else if h = ''v6.example.com'' then Inl (DnsError ''ENODATA'')
                       else Inr [''192.0.2.1'']),
      resolve6 = (\<lambda>h. if h = ''b.example.com'' then Inl (DnsError ''ENOTFOUND'')
                       else if h = ''v6.example.com'' then Inr [''2001:db8::1'']
                       else Inl (DnsError ''ENODATA''))\<rparr>"

definition crt_response :: "string \<Rightarrow> http_result" where
  \<comment> \<open>a response of the log for the examples: one record with the given \<open>name_value\<close>\<close>
  "crt_response names = Resolved (JArr [JObj [(''name_value'', JStr names)]])"

definition crt_names0 :: string where
  \<comment> \<open>three names, one per line\<close>
  "crt_names0 = ''c.example.com'' @ [CHR 0x0A] @ ''b.example.com'' @ [CHR 0x0A] @ ''a.example.com''"

definition shy_host :: string where
  \<comment> \<open>\<open>ab.example.com\<close> with a soft hyphen (U+00AD) after the \<open>a\<close>\<close>
  "shy_host = ''a'' @ [CHR 0xAD] @ ''b.example.com''"

definition ignorable :: "char \<Rightarrow> bool" where
  \<comment> \<open>the soft hyphen, which the Unicode collation ignores\<close>
  "ignorable c = ((of_char c :: nat) = 173)"

definition collation_compare :: "string \<Rightarrow> string \<Rightarrow> int" where
  \<comment> \<open>a comparator that, as a locale comparison does, skips the ignorable characters and
      so ties names that differ in them only\<close>
  "collation_compare a b =
     code_unit_compare (filter (\<lambda>c. \<not> ignorable c) a) (filter (\<lambda>c. \<not> ignorable c) b)"

section \<open>The scheduler: invariants\<close>

lemma worker_claim_simps:
  "index (worker_claim items w st) = Suc (index st)"
  "out (worker_claim items w st) = out st"
  "pending (worker_claim items w st) =
     (if index st < length items then pending st @ [(w, items ! index st)] else pending st)"
  "calls (worker_claim items w st) =
     (if index st < length items then calls st @ [items ! index st] else calls st)"
  by (simp_all add: worker_claim_def Let_def)

lemma start_fields:
  fixes items :: "'a list"
  defines "st \<equiv> \<lambda>k. (start items k :: ('a, 'r) sched)"
  shows "index (st k) = k \<and> out (st k) = [] \<and>
   pending (st k) = map (\<lambda>i. (i, items ! i)) [0..<min k (length items)] \<and>
   calls (st k) = take k items"
proof (induction k)
  case 0
  show ?case by (simp add: st_def start_def)
next
  case (Suc k)
  have step: "st (Suc k) = worker_claim items k (st k)"
    by (simp add: st_def start_def)
  show ?case
  proof (cases "k < length items")
    case True
    then have "min (Suc k) (length items) = Suc k" "min k (length items) = k" by simp_all
    with True Suc.IH show ?thesis
      by (simp add: step worker_claim_simps take_Suc_conv_app_nth)
  next
    case False
    then have "min (Suc k) (length items) = length items" "min k (length items) = length items"
      by simp_all
    with False Suc.IH show ?thesis
      by (simp add: step worker_claim_simps)
  qed
qed

lemma settle_simps:
  assumes "pending st \<noteq> []"
  shows "out (settle items mapper n st) =
           out st @ [record_outcome mapper (snd (pending st ! (n mod length (pending st))))]"
    and "index (settle items mapper n st) = Suc (index st)"
    and "pending (settle items mapper n st) =
           (let k = n mod length (pending st);
                rest = take k (pending st) @ drop (Suc k) (pending st)
            in if index st < length items
               then rest @ [(fst (pending st ! k), items ! index st)] else rest)"
    and "calls (settle items mapper n st) =
           (if index st < length items then calls st @ [items ! index st] else calls st)"
  using assms by (simp_all add: settle_def Let_def worker_claim_simps)

lemma settle_idle: "pending st = [] \<Longrightarrow> settle items mapper n st = st"
  by (simp add: settle_def)

lemma length_pending_settle:
  "length (pending (settle items mapper n st)) \<le> length (pending st)"
proof (cases "pending st = []")
  case True
  then show ?thesis by (simp add: settle_idle)
next
  case False
  then have "\<not> length (pending st) \<le> n mod length (pending st)" by (simp add: not_le)
  then show ?thesis using False
    by (simp add: settle_simps Let_def min_def)
qed

lemma length_pending_fold_settle:
  "length (pending (fold (settle items mapper) ns st)) \<le> length (pending st)"
proof (induction ns arbitrary: st)
  case Nil
  show ?case by simp
next
  case (Cons n ns)
  have "length (pending (fold (settle items mapper) ns (settle items mapper n st)))
          \<le> length (pending (settle items mapper n st))"
    by (rule Cons.IH)
  also have "\<dots> \<le> length (pending st)" by (rule length_pending_settle)
  finally show ?case by simp
qed


lemma sched_inv_start: "sched_inv items mapper (start items k)"
proof -
  have "map (\<lambda>x. record_outcome mapper (items ! x)) [0..<min k (length items)] =
      map (record_outcome mapper) (take k items)"
    by (rule nth_equalityI) simp_all
  then show ?thesis
    by (simp add: sched_inv_def start_fields o_def)
qed

lemma sched_live_start:
  assumes "1 \<le> k"
  shows "sched_live items (start items k)"
proof -
  have "min k (length items) = 0 \<Longrightarrow> length items \<le> k"
    using assms by (simp add: min_def split: if_splits)
  then show ?thesis by (simp add: sched_live_def start_fields)
qed

lemma mset_remove_nth:
  assumes "k < length xs"
  shows "mset (map f (take k xs @ drop (Suc k) xs)) + {#f (xs ! k)#} = mset (map f xs)"
proof -
  have "xs = take k xs @ xs ! k # drop (Suc k) xs" using assms by (rule id_take_nth_drop)
  then have "mset (map f xs) = mset (map f (take k xs @ xs ! k # drop (Suc k) xs))" by simp
  then show ?thesis by simp
qed

lemma sched_inv_settle:
  assumes inv: "sched_inv items mapper st"
  shows "sched_inv items mapper (settle items mapper n st)"
proof (cases "pending st = []")
  case True
  with inv show ?thesis by (simp add: settle_idle)
next
  case False
  define k where "k = n mod length (pending st)"
  have k: "k < length (pending st)" using False by (simp add: k_def)
  let ?f = "\<lambda>p. record_outcome mapper (snd p)"
  let ?rest = "take k (pending st) @ drop (Suc k) (pending st)"
  have rm: "mset (map ?f ?rest) + {#?f (pending st ! k)#} = mset (map ?f (pending st))"
    using k by (rule mset_remove_nth)
  from inv have c: "calls st = take (index st) items"
    and m: "mset (map ?f (pending st)) + mset (out st) = mset (map (record_outcome mapper) (calls st))"
    by (simp_all add: sched_inv_def)
  have "mset (map ?f ?rest) + mset (out st @ [?f (pending st ! k)]) =
      (mset (map ?f ?rest) + {#?f (pending st ! k)#}) + mset (out st)"
    by simp
  also have "\<dots> = mset (map ?f (pending st)) + mset (out st)"
    by (simp only: rm)
  also have "\<dots> = mset (map (record_outcome mapper) (calls st))"
    by (rule m)
  finally have m': "mset (map ?f ?rest) + mset (out st @ [?f (pending st ! k)]) =
      mset (map (record_outcome mapper) (calls st))" .
  show ?thesis
  proof (cases "index st < length items")
    case True
    then show ?thesis using False c m'
      by (simp add: sched_inv_def settle_simps Let_def k_def [symmetric] take_Suc_conv_app_nth add.assoc)
  next
    case False
    then show ?thesis using \<open>pending st \<noteq> []\<close> c m'
      by (simp add: sched_inv_def settle_simps Let_def k_def [symmetric] add.assoc)
  qed
qed

lemma sched_live_settle:
  assumes "sched_live items st"
  shows "sched_live items (settle items mapper n st)"
proof (cases "pending st = []")
  case True
  with assms show ?thesis by (simp add: settle_idle)
next
  case False
  then show ?thesis by (simp add: sched_live_def settle_simps Let_def)
qed

lemma sched_inv_reached: "sched_inv items mapper (reached items mapper k ns)"
proof -
  have "sched_inv items mapper st \<Longrightarrow> sched_inv items mapper (fold (settle items mapper) ns st)" for st
    by (induction ns arbitrary: st) (simp_all add: sched_inv_settle)
  then show ?thesis by (simp add: reached_def sched_inv_start)
qed

lemma sched_inv_sizes:
  assumes "sched_inv items mapper st"
  shows "length (pending st) + length (out st) = min (index st) (length items)"
proof -
  from assms have "size (mset (map (\<lambda>p. record_outcome mapper (snd p)) (pending st)) + mset (out st)) =
      size (mset (map (record_outcome mapper) (take (index st) items)))"
    by (simp add: sched_inv_def)
  then show ?thesis by (simp add: min_def)
qed

lemma sched_inv_out:
  assumes "sched_inv items mapper st" and "r \<in> set (out st)"
  shows "\<exists>x \<in> set items. r = record_outcome mapper x"
proof -
  from assms(2) have "r \<in># mset (map (\<lambda>p. record_outcome mapper (snd p)) (pending st)) + mset (out st)"
    by simp
  with assms(1) have "r \<in># mset (map (record_outcome mapper) (take (index st) items))"
    by (simp add: sched_inv_def)
  then obtain x where "x \<in> set (take (index st) items)" and "r = record_outcome mapper x"
    by auto
  then show ?thesis by (auto dest: in_set_takeD)
qed

lemma sched_final:
  assumes "sched_inv items mapper st" and "sched_live items st" and "pending st = []"
  shows "calls st = items" and "mset (out st) = mset (map (record_outcome mapper) items)"
  using assms by (simp_all add: sched_inv_def sched_live_def)

lemma await_all_completes:
  assumes "sched_inv items mapper st" and "sched_live items st"
    and "length items - length (out st) \<le> length ns"
  shows "\<exists>st'. await_all items mapper st ns = Some st' \<and> sched_inv items mapper st' \<and>
           sched_live items st' \<and> pending st' = []"
  using assms
proof (induction ns arbitrary: st)
  case Nil
  from sched_inv_sizes [OF Nil.prems(1)] Nil.prems(3)
  have "length (pending st) + length (out st) \<le> length (out st)" by simp
  then have "pending st = []" by simp
  with Nil.prems show ?case by simp
next
  case (Cons n ns)
  show ?case
  proof (cases "pending st = []")
    case True
    with Cons.prems show ?thesis by simp
  next
    case False
    have "sched_inv items mapper (settle items mapper n st)"
      using Cons.prems(1) by (rule sched_inv_settle)
    moreover have "sched_live items (settle items mapper n st)"
      using Cons.prems(2) by (rule sched_live_settle)
    moreover have "length items - length (out (settle items mapper n st)) \<le> length ns"
      using Cons.prems(3) False by (simp add: settle_simps)
    ultimately have "\<exists>st'. await_all items mapper (settle items mapper n st) ns = Some st' \<and>
        sched_inv items mapper st' \<and> sched_live items st' \<and> pending st' = []"
      by (rule Cons.IH)
    with False show ?thesis by simp
  qed
qed

lemma await_all_reached:
  "await_all items mapper st ns = Some st' \<Longrightarrow> st' = fold (settle items mapper) ns st"
proof (induction ns arbitrary: st)
  case Nil
  then show ?case by (simp split: if_splits)
next
  case (Cons n ns)
  show ?case
  proof (cases "pending st = []")
    case True
    have idle: "fold (settle items mapper) ms st = st" for ms
      by (induction ms) (simp_all add: settle_idle True)
    from True Cons.prems have "st' = st" by simp
    with idle [of "n # ns"] show ?thesis by simp
  next
    case False
    with Cons show ?thesis by simp
  qed
qed

lemma concurrencyMap_run_completes:
  assumes "1 \<le> k" and "length items \<le> length ns"
  shows "\<exists>st. concurrencyMap_run items mapper k ns = Some st \<and> sched_inv items mapper st \<and>
           sched_live items st \<and> pending st = []"
  unfolding concurrencyMap_run_def
proof (rule await_all_completes)
  show "sched_inv items mapper (start items k)" by (rule sched_inv_start)
  show "sched_live items (start items k :: ('a, 'b) sched)" using assms(1) by (rule sched_live_start)
  show "length items - length (out (start items k :: ('a, 'b) sched)) \<le> length ns"
    using assms(2) by (simp add: start_fields)
qed

lemma item_record_outcome: "item (record_outcome mapper x) = x"
  by (simp add: record_outcome_def split: sum.splits)

section \<open>The scheduler: completion (C2)\<close>

text \<open>
  Claim C2. For every list of items, every mapper (whatever calls fail) and every
  concurrency limit of at least 1 (so also for every limit between 1 and the number of
  items), in whatever order the lookups settle: once as many lookups have settled as there
  are items, \<open>concurrencyMap\<close> returns; the mapper was called exactly once per item, in
  the order of the items; \<open>out\<close> has exactly one record per item, and the records are
  those of the items, each with its item and the outcome of its call.
\<close>

theorem concurrencyMap_one_outcome_per_item:
  fixes items :: "'a list" and mapper :: "'a \<Rightarrow> js_error + 'r"
  assumes "1 \<le> concurrency" and "length items \<le> length schedule"
  shows "\<exists>st. concurrencyMap_run items mapper concurrency schedule = Some st \<and>
           concurrencyMap items mapper concurrency schedule = Some (out st) \<and>
           calls st = items \<and>
           length (out st) = length items \<and>
           mset (map item (out st)) = mset items \<and>
           mset (out st) = mset (map (record_outcome mapper) items)"
proof -
  from concurrencyMap_run_completes [OF assms]
  obtain st where run: "concurrencyMap_run items mapper concurrency schedule = Some st"
    and inv: "sched_inv items mapper st" and live: "sched_live items st"
    and fin: "pending st = []"
    by blast
  have c: "calls st = items"
    and m: "mset (out st) = mset (map (record_outcome mapper) items)"
    using sched_final [OF inv live fin] by simp_all
  have "size (mset (out st)) = size (mset (map (record_outcome mapper) items))"
    by (simp only: m)
  then have len: "length (out st) = length items" by simp
  have "mset (map item (out st)) = image_mset item (mset (out st))" by simp
  also have "\<dots> = image_mset item (mset (map (record_outcome mapper) items))"
    by (simp only: m)
  also have "\<dots> = mset items"
    by (simp add: multiset.map_comp o_def item_record_outcome)
  finally have items: "mset (map item (out st)) = mset items" .
  from run c len items m show ?thesis
    by (simp add: concurrencyMap_def)
qed

text \<open>
  Two workers, three hosts, the second lookup times out and settles first.
\<close>

lemma concurrencyMap_example:
  "concurrencyMap [''a.example.com'', ''b.example.com'', ''c.example.com''] mapper0 2 [1, 0, 0] =
     Some [Error ''b.example.com'' (DnsError ''ETIMEOUT''), Result ''a.example.com'' [''192.0.2.1''],
           Result ''c.example.com'' [''192.0.2.1'']]"
  by code_simp

theorem concurrencyMap_one_outcome_per_item_witness:
  "(1::nat) \<le> 2 \<and>
   length [''a.example.com'', ''b.example.com'', ''c.example.com''] \<le> length [1, 0, 0 :: nat] \<and>
   (\<exists>st. concurrencyMap_run [''a.example.com'', ''b.example.com'', ''c.example.com''] mapper0 2 [1, 0, 0] = Some st \<and>
      concurrencyMap [''a.example.com'', ''b.example.com'', ''c.example.com''] mapper0 2 [1, 0, 0] = Some (out st) \<and>
      calls st = [''a.example.com'', ''b.example.com'', ''c.example.com''] \<and>
      length (out st) = length [''a.example.com'', ''b.example.com'', ''c.example.com''] \<and>
      mset (map item (out st)) = mset [''a.example.com'', ''b.example.com'', ''c.example.com''] \<and>
      mset (out st) = mset (map (record_outcome mapper0) [''a.example.com'', ''b.example.com'', ''c.example.com'']))"
proof -
  have h1: "(1::nat) \<le> 2" by simp
  have h2: "length [''a.example.com'', ''b.example.com'', ''c.example.com''] \<le> length [1, 0, 0 :: nat]"
    by simp
  from h1 h2 concurrencyMap_one_outcome_per_item [OF h1 h2, of mapper0]
  show ?thesis by (intro conjI)
qed

section \<open>The scheduler: the bound on lookups in flight (C8)\<close>

text \<open>
  Claim C8. At every point of a run with concurrency limit \<open>K\<close>, at most \<open>K\<close> mapper calls
  are in flight: while the workers start (after any number \<open>j \<le> K\<close> of them has started),
  and after any sequence of settlements, in any order.
\<close>

theorem concurrencyMap_in_flight_bound:
  fixes items :: "'a list" and mapper :: "'a \<Rightarrow> js_error + 'r"
  shows "length (pending (reached items mapper concurrency schedule)) \<le> concurrency \<and>
         (\<forall>j \<le> concurrency. length (pending (start items j :: ('a, 'r) sched)) \<le> concurrency)"
proof
  have "length (pending (reached items mapper concurrency schedule))
          \<le> length (pending (start items concurrency :: ('a, 'r) sched))"
    unfolding reached_def by (rule length_pending_fold_settle)
  also have "\<dots> \<le> concurrency" by (simp add: start_fields)
  finally show "length (pending (reached items mapper concurrency schedule)) \<le> concurrency" .
  show "\<forall>j \<le> concurrency. length (pending (start items j :: ('a, 'r) sched)) \<le> concurrency"
    by (auto simp add: start_fields)
qed

theorem concurrencyMap_in_flight_bound_witness:
  "length (pending (reached [''a.example.com'', ''b.example.com'', ''c.example.com''] mapper0 2 [1])) \<le> 2 \<and>
   (1::nat) \<le> 2 \<and>
   length (pending (start [''a.example.com'', ''b.example.com'', ''c.example.com''] 1 :: (string, string list) sched)) \<le> 2"
proof -
  have h: "(1::nat) \<le> 2" by simp
  from concurrencyMap_in_flight_bound
    [of "[''a.example.com'', ''b.example.com'', ''c.example.com'']" mapper0 2 "[1]"]
  have "length (pending (reached [''a.example.com'', ''b.example.com'', ''c.example.com''] mapper0 2 [1])) \<le> 2"
    and "length (pending (start [''a.example.com'', ''b.example.com'', ''c.example.com''] 1 :: (string, string list) sched)) \<le> 2"
    using h by blast+
  with h show ?thesis by (intro conjI)
qed

section \<open>The resolver: the union of the strategies (C3)\<close>

lemma set_fold_set_add: "set (fold set_add xs s) = set xs \<union> set s"
  by (induction xs arbitrary: s) (auto simp: set_add_def)

lemma distinct_fold_set_add: "distinct s \<Longrightarrow> distinct (fold set_add xs s)"
  by (induction xs arbitrary: s) (auto simp: set_add_def)

lemma fold_set_add_address:
  "fold (\<lambda>r. set_add (address r)) rs s = fold set_add (map address rs) s"
  by (simp add: fold_map o_def)

lemma resolveHost_eq:
  "resolveHost d host =
     Inr (add_strategy (resolve6 d host)
           (add_strategy (resolve4 d host)
             (add_strategy (lookup_addresses (lookup d host)) [])))"
  by (simp add: resolveHost_def add_strategy_def lookup_addresses_def fold_set_add_address
      split: sum.splits)

lemma set_add_strategy: "set (add_strategy r ips) = strategy_addresses r \<union> set ips"
  by (auto simp: add_strategy_def strategy_addresses_def set_fold_set_add split: sum.splits)

lemma distinct_add_strategy: "distinct ips \<Longrightarrow> distinct (add_strategy r ips)"
  by (simp add: add_strategy_def distinct_fold_set_add split: sum.splits)

lemma add_strategy_failed: "add_strategy (Inl err) ips = ips"
  by (simp add: add_strategy_def)

text \<open>
  The resolver of the subfinder script: for every host and every DNS, \<open>resolveHost\<close>
  resolves with a list without duplicates whose addresses are exactly those found by the
  generic lookup, by the IPv4 query and by the IPv6 query together; a strategy that fails
  contributes none and the others contribute theirs; when all three fail the list is
  empty.
\<close>

lemma resolveHost_union_of_strategies:
  "\<exists>ips. resolveHost d host = Inr ips \<and> distinct ips \<and>
     set ips = strategy_addresses (lookup_addresses (lookup d host)) \<union>
               strategy_addresses (resolve4 d host) \<union>
               strategy_addresses (resolve6 d host) \<and>
     (isl (lookup d host) \<and> isl (resolve4 d host) \<and> isl (resolve6 d host) \<longrightarrow> ips = [])"
proof -
  let ?ips = "add_strategy (resolve6 d host)
           (add_strategy (resolve4 d host)
             (add_strategy (lookup_addresses (lookup d host)) []))"
  have "resolveHost d host = Inr ?ips" by (rule resolveHost_eq)
  moreover have "distinct ?ips" by (intro distinct_add_strategy) simp
  moreover have "set ?ips = strategy_addresses (lookup_addresses (lookup d host)) \<union>
               strategy_addresses (resolve4 d host) \<union>
               strategy_addresses (resolve6 d host)"
    by (auto simp: set_add_strategy)
  moreover have "isl (lookup d host) \<and> isl (resolve4 d host) \<and> isl (resolve6 d host) \<longrightarrow> ?ips = []"
    by (auto simp: isl_def add_strategy_def lookup_addresses_def)
  ultimately show ?thesis by blast
qed

text \<open>
  The generic lookup and the IPv4 query find the same address, the IPv6 query another;
  for a host without records all three fail.
\<close>

lemma resolveHost_example:
  "resolveHost dns0 ''api.example.com'' =
     Inr [''93.184.216.34'', ''2606:2800:220:1:248:1893:25c8:1946''] \<and>
   resolveHost dns0 ''b.example.com'' = Inr []"
  by (simp add: resolveHost_def dns0_def set_add_def)

lemma resolveHost_all_fail_example:
  "isl (lookup dns0 ''b.example.com'') \<and> isl (resolve4 dns0 ''b.example.com'') \<and>
   isl (resolve6 dns0 ''b.example.com'') \<and>
   resolveHost dns0 ''b.example.com'' = Inr []"
  by (simp add: resolveHost_def dns0_def)

text \<open>
  Claim C3 asks for the union of the generic lookup, the IPv4 query and the IPv6 query.
  The resolver of the interactive script (\<open>resolveSubdomains\<close> in \<open>subdomain.js\<close>) makes
  the IPv4 query only: a host with an AAAA record and no A record is skipped, where
  \<open>resolveHost\<close> finds its address.
\<close>

theorem resolveSubdomains_single_strategy:
  "dyn_resolveSubdomains dns1 [''v6.example.com''] = [] \<and>
   resolveHost dns1 ''v6.example.com'' = Inr [''2001:db8::1'']"
  by code_simp

section \<open>The resolver: no timeout is passed (C9)\<close>

text \<open>
  Claim C9 fails as stated: none of the three calls \<open>resolveHost\<close> makes is given a
  timeout (the lookup gets \<open>{ all: true }\<close>, the two queries get the host only).
\<close>

theorem resolveHost_calls_no_timeout:
  "\<not> list_all has_timeout (resolveHost_calls ''a.example.com'') \<and>
   filter has_timeout (resolveHost_calls ''a.example.com'') = []"
  by (simp add: resolveHost_calls_def has_timeout_def)

text \<open>
  Claim C9, amended. No call of a resolution strategy is given a timeout by
  \<open>resolveHost\<close>; a strategy call that rejects, with whatever error (a timeout raised by
  the resolver itself, \<open>ETIMEOUT\<close>, among them), contributes no addresses: the result is
  the one of a strategy that found no records.
\<close>

theorem resolveHost_failure_contributes_nothing:
  "filter has_timeout (resolveHost_calls host) = [] \<and>
   resolveHost (d\<lparr>lookup := (lookup d)(host := Inl err)\<rparr>) host =
     resolveHost (d\<lparr>lookup := (lookup d)(host := Inr [])\<rparr>) host \<and>
   resolveHost (d\<lparr>resolve4 := (resolve4 d)(host := Inl err)\<rparr>) host =
     resolveHost (d\<lparr>resolve4 := (resolve4 d)(host := Inr [])\<rparr>) host \<and>
   resolveHost (d\<lparr>resolve6 := (resolve6 d)(host := Inl err)\<rparr>) host =
     resolveHost (d\<lparr>resolve6 := (resolve6 d)(host := Inr [])\<rparr>) host"
  by (simp add: resolveHost_calls_def has_timeout_def resolveHost_def)

theorem resolveHost_failure_contributes_nothing_witness:
  "resolveHost (dns0\<lparr>resolve4 := (resolve4 dns0)(''api.example.com'' := Inl (DnsError ''ETIMEOUT''))\<rparr>)
     ''api.example.com'' =
   resolveHost (dns0\<lparr>resolve4 := (resolve4 dns0)(''api.example.com'' := Inr [])\<rparr>) ''api.example.com''"
  using resolveHost_failure_contributes_nothing [of "''api.example.com''" dns0 "DnsError ''ETIMEOUT''"]
  by blast

section \<open>The resolver as the mapper (C10)\<close>

text \<open>
  Claim C10. For every host \<open>resolveHost\<close> resolves (with a list, maybe empty) and never
  rejects. With \<open>resolveHost\<close> as the mapper, no state of a run of \<open>concurrencyMap\<close> has
  a record with an \<open>error\<close> field in \<open>out\<close>, and the run, once all lookups have settled,
  returns one record per item, each with a \<open>result\<close> field.
\<close>

theorem resolveHost_never_rejects:
  fixes items :: "string list"
  shows "(\<exists>ips. resolveHost d host = Inr ips) \<and>
     (\<forall>r \<in> set (out (reached items (resolveHost d) concurrency schedule)).
        \<exists>ips. r = Result (item r) ips) \<and>
     (1 \<le> concurrency \<and> length items \<le> length schedule \<longrightarrow>
        (\<exists>resolved. concurrencyMap items (resolveHost d) concurrency schedule = Some resolved \<and>
           length resolved = length items \<and>
           (\<forall>r \<in> set resolved. \<exists>ips. r = Result (item r) ips)))"
proof (intro conjI)
  show ok: "\<exists>ips. resolveHost d host = Inr ips" for host
    by (simp add: resolveHost_eq)
  have res: "\<exists>ips. r = Result (item r) ips"
    if "sched_inv items (resolveHost d) st" and "r \<in> set (out st)" for r st
  proof -
    from sched_inv_out [OF that] obtain x where "r = record_outcome (resolveHost d) x" by blast
    moreover from ok [of x] obtain ips where "resolveHost d x = Inr ips" by blast
    ultimately show ?thesis by (simp add: record_outcome_def)
  qed
  show "\<forall>r \<in> set (out (reached items (resolveHost d) concurrency schedule)).
        \<exists>ips. r = Result (item r) ips"
    using res [OF sched_inv_reached] by blast
  show "1 \<le> concurrency \<and> length items \<le> length schedule \<longrightarrow>
        (\<exists>resolved. concurrencyMap items (resolveHost d) concurrency schedule = Some resolved \<and>
           length resolved = length items \<and>
           (\<forall>r \<in> set resolved. \<exists>ips. r = Result (item r) ips))"
  proof
    assume a: "1 \<le> concurrency \<and> length items \<le> length schedule"
    then have "1 \<le> concurrency" and "length items \<le> length schedule" by simp_all
    from concurrencyMap_run_completes [OF this, of "resolveHost d"]
    obtain st where run: "concurrencyMap_run items (resolveHost d) concurrency schedule = Some st"
      and inv: "sched_inv items (resolveHost d) st" and live: "sched_live items st"
      and fin: "pending st = []"
      by blast
    have "size (mset (out st)) = size (mset (map (record_outcome (resolveHost d)) items))"
      using sched_final(2) [OF inv live fin] by simp
    then have "length (out st) = length items" by simp
    moreover have "\<forall>r \<in> set (out st). \<exists>ips. r = Result (item r) ips"
      using res [OF inv] by blast
    ultimately show "\<exists>resolved. concurrencyMap items (resolveHost d) concurrency schedule = Some resolved \<and>
           length resolved = length items \<and>
           (\<forall>r \<in> set resolved. \<exists>ips. r = Result (item r) ips)"
      using run by (simp add: concurrencyMap_def)
  qed
qed


lemma reached_example:
  "out (reached [''api.example.com'', ''b.example.com''] (resolveHost dns0) 2 [1]) =
     [Result ''b.example.com'' []]"
  by code_simp

theorem resolveHost_never_rejects_witness:
  "Result ''b.example.com'' [] \<in>
     set (out (reached [''api.example.com'', ''b.example.com''] (resolveHost dns0) 2 [1])) \<and>
   (\<exists>ips. Result ''b.example.com'' [] = Result (item (Result ''b.example.com'' [] :: (string, string list) outcome)) ips) \<and>
   (1::nat) \<le> 2 \<and>
   length [''api.example.com'', ''b.example.com''] \<le> length [1, 0 :: nat] \<and>
   (\<exists>resolved. concurrencyMap [''api.example.com'', ''b.example.com''] (resolveHost dns0) 2 [1, 0] =
        Some resolved \<and> length resolved = length [''api.example.com'', ''b.example.com''] \<and>
        list_all (\<lambda>r. \<exists>ips. r = Result (item r) ips) resolved)"
proof -
  have h0: "Result ''b.example.com'' [] \<in>
     set (out (reached [''api.example.com'', ''b.example.com''] (resolveHost dns0) 2 [1]))"
    unfolding reached_example by simp
  have h1: "(1::nat) \<le> 2" by simp
  have h2: "length [''api.example.com'', ''b.example.com''] \<le> length [1, 0 :: nat]" by simp
  from h0 h1 h2
    resolveHost_never_rejects [of dns0 "''b.example.com''" "[''api.example.com'', ''b.example.com'']" 2 "[1]"]
    resolveHost_never_rejects [of dns0 "''b.example.com''" "[''api.example.com'', ''b.example.com'']" 2 "[1, 0]"]
  show ?thesis unfolding list_all_iff by blast
qed

section \<open>Sorting\<close>

lemma mset_insert_sorted: "mset (insert_sorted le x ys) = add_mset x (mset ys)"
  by (induction ys) simp_all

lemma mset_array_sort: "mset (array_sort le xs) = mset xs"
  by (induction xs) (simp_all add: array_sort_def mset_insert_sorted)

lemma set_insert_sorted: "set (insert_sorted le x ys) = insert x (set ys)"
  by (induction ys) auto

lemma sorted_insert_sorted:
  assumes total: "\<And>a b. le a b \<or> le b a"
    and trans: "\<And>a b c. le a b \<Longrightarrow> le b c \<Longrightarrow> le a c"
    and "sorted_wrt le ys"
  shows "sorted_wrt le (insert_sorted le x ys)"
  using assms(3)
proof (induction ys)
  case Nil
  show ?case by simp
next
  case (Cons y ys)
  show ?case
  proof (cases "le x y")
    case True
    with Cons.prems show ?thesis by (auto intro: trans)
  next
    case False
    with total have "le y x" by blast
    with False Cons show ?thesis by (auto simp: set_insert_sorted)
  qed
qed

lemma sorted_array_sort:
  assumes "\<And>a b. le a b \<or> le b a" and "\<And>a b c. le a b \<Longrightarrow> le b c \<Longrightarrow> le a c"
  shows "sorted_wrt le (array_sort le xs)"
proof (induction xs)
  case Nil
  show ?case by (simp add: array_sort_def)
next
  case (Cons x xs)
  have "array_sort le (x # xs) = insert_sorted le x (array_sort le xs)"
    by (simp add: array_sort_def)
  with sorted_insert_sorted [of le "array_sort le xs" x, OF assms Cons.IH]
  show ?case by simp
qed

lemma sorted_by_item:
  assumes "consistent_comparator cmp"
  shows "sorted_wrt (by_item cmp) (array_sort (by_item cmp) rs)"
proof (rule sorted_array_sort)
  show "by_item cmp a b \<or> by_item cmp b a" for a b :: "(string, 'a) outcome"
    using assms by (simp add: consistent_comparator_def by_item_def)
  show "by_item cmp a b \<Longrightarrow> by_item cmp b c \<Longrightarrow> by_item cmp a c" for a b c :: "(string, 'a) outcome"
    using assms unfolding consistent_comparator_def by_item_def by blast
qed

lemma sorted_unique:
  "sorted_wrt le xs \<Longrightarrow> sorted_wrt le ys \<Longrightarrow> mset xs = mset ys \<Longrightarrow>
   (\<forall>a \<in> set xs. \<forall>b \<in> set xs. le a b \<longrightarrow> le b a \<longrightarrow> a = b) \<Longrightarrow> xs = ys"
proof (induction xs arbitrary: ys)
  case Nil
  then show ?case by simp
next
  case (Cons x xs)
  from Cons.prems(3) have "ys \<noteq> []" by auto
  then obtain y ys' where ys: "ys = y # ys'" by (cases ys) auto
  have xy: "x = y"
  proof (rule ccontr)
    assume ne: "x \<noteq> y"
    have "x \<in># mset ys" using Cons.prems(3) [symmetric] by simp
    with ne ys have "x \<in> set ys'" by auto
    with Cons.prems(2) ys have yx: "le y x" by simp
    have "y \<in># mset (x # xs)" using Cons.prems(3) ys by simp
    with ne have yin: "y \<in> set xs" by auto
    with Cons.prems(1) have "le x y" by simp
    with yx yin Cons.prems(4) have "x = y" by simp
    with ne show False by simp
  qed
  with Cons.prems ys have "xs = ys'" by (intro Cons.IH) simp_all
  with xy ys show ?case by simp
qed

lemma print_resolved_eq:
  "print_resolved rs cnt =
     (concat (map host_lines (filter has_addresses rs)), cnt + length (filter has_addresses rs))"
  by (induction rs cnt rule: print_resolved.induct) simp_all

lemma length_filter_mset: "length (filter P xs) = size (filter_mset P (mset xs))"
  by (induction xs) simp_all

lemma report_eq:
  "report cmp subdomains resolved =
     concat (map host_lines (filter has_addresses (array_sort (by_item cmp) resolved))) @
     [Total_found (length subdomains), Successfully_resolved (size (filter_mset has_addresses (mset resolved)))]"
  by (simp add: report_def print_resolved_eq length_filter_mset mset_array_sort)

lemma printed_hosts_addresses: "printed_hosts (map Address ips @ ls) = printed_hosts ls"
  by (induction ips) simp_all

lemma printed_hosts_lines:
  "printed_hosts (concat (map host_lines (filter has_addresses rs)) @ [Total_found n, Successfully_resolved m]) =
     map item (filter has_addresses rs)"
proof (induction rs)
  case Nil
  show ?case by simp
next
  case (Cons r rs)
  then show ?case by (cases r) (simp_all add: printed_hosts_addresses)
qed

section \<open>Comparators\<close>

lemma code_unit_le_refl: "code_unit_le a a"
  by (induction a) simp_all

lemma code_unit_le_total: "code_unit_le a b \<or> code_unit_le b a"
proof (induction a arbitrary: b)
  case Nil
  show ?case by simp
next
  case (Cons x xs)
  show ?case
  proof (cases b)
    case Nil
    then show ?thesis by simp
  next
    case (Cons y ys)
    have "(of_char x :: nat) < of_char y \<or> (of_char y :: nat) < of_char x \<or> x = y"
      by (metis linorder_neqE_nat of_char_eq_iff)
    with Cons.IH [of ys] Cons show ?thesis using \<open>\<And>b. code_unit_le xs b \<or> code_unit_le b xs\<close> by auto
  qed
qed

lemma code_unit_le_trans: "code_unit_le a b \<Longrightarrow> code_unit_le b c \<Longrightarrow> code_unit_le a c"
proof (induction a arbitrary: b c)
  case Nil
  show ?case by simp
next
  case (Cons x xs)
  from Cons.prems(1) obtain y ys where b: "b = y # ys" by (cases b) auto
  from Cons.prems(2) b obtain z zs where c: "c = z # zs" by (cases c) auto
  from Cons.prems b c Cons.IH [of ys zs] show ?case by auto
qed

lemma code_unit_le_antisym: "code_unit_le a b \<Longrightarrow> code_unit_le b a \<Longrightarrow> a = b"
proof (induction a arbitrary: b)
  case Nil
  then show ?case by (cases b) simp_all
next
  case (Cons x xs)
  from Cons.prems(1) obtain y ys where b: "b = y # ys" by (cases b) auto
  from Cons.prems b Cons.IH [of ys] show ?case by auto
qed

lemma code_unit_compare_le: "code_unit_compare a b \<le> 0 \<longleftrightarrow> code_unit_le a b"
  by (simp add: code_unit_compare_def code_unit_le_refl)

lemma consistent_code_unit_compare: "consistent_comparator code_unit_compare"
  unfolding consistent_comparator_def code_unit_compare_le
  using code_unit_le_total code_unit_le_trans by blast

lemma code_unit_compare_antisym:
  "\<forall>a b. code_unit_compare a b \<le> 0 \<longrightarrow> code_unit_compare b a \<le> 0 \<longrightarrow> a = b"
  unfolding code_unit_compare_le using code_unit_le_antisym by blast

lemma collation_compare_key:
  "collation_compare a b \<le> 0 \<longleftrightarrow>
     code_unit_le (filter (\<lambda>c. \<not> ignorable c) a) (filter (\<lambda>c. \<not> ignorable c) b)"
  by (simp add: collation_compare_def code_unit_compare_le)

lemma consistent_collation_compare: "consistent_comparator collation_compare"
  unfolding consistent_comparator_def collation_compare_key
  using code_unit_le_total code_unit_le_trans by blast

section \<open>The report: resolved hosts, sorted, and the summary (C5)\<close>

text \<open>
  The report loop: for every list of outcomes, and a locale comparison that is a
  consistent comparator, the hosts printed are exactly those of the outcomes with at
  least one address (an empty result and a captured failure are dropped), in the order of
  the comparison, and the summary follows.
\<close>

lemma report_resolved_hosts_sorted:
  assumes "consistent_comparator localeCompare"
  shows "mset (printed_hosts (report localeCompare subdomains resolved)) =
           image_mset item (filter_mset has_addresses (mset resolved)) \<and>
         sorted_wrt (\<lambda>a b. localeCompare a b \<le> 0)
           (printed_hosts (report localeCompare subdomains resolved)) \<and>
         (\<exists>ls. report localeCompare subdomains resolved =
            ls @ [Total_found (length subdomains),
                  Successfully_resolved (size (filter_mset has_addresses (mset resolved)))])"
proof (intro conjI)
  let ?sorted = "array_sort (by_item localeCompare) resolved"
  have hosts: "printed_hosts (report localeCompare subdomains resolved) =
      map item (filter has_addresses ?sorted)"
    by (simp only: report_eq printed_hosts_lines)
  have "mset (map item (filter has_addresses ?sorted)) =
      image_mset item (filter_mset has_addresses (mset ?sorted))"
    by simp
  then show "mset (printed_hosts (report localeCompare subdomains resolved)) =
           image_mset item (filter_mset has_addresses (mset resolved))"
    by (simp only: hosts mset_array_sort)
  have s: "sorted_wrt (by_item localeCompare) (filter has_addresses ?sorted)"
    using sorted_by_item [OF assms] by (rule sorted_wrt_filter)
  have "sorted_wrt (\<lambda>a b. localeCompare (item a) (item b) \<le> 0) (filter has_addresses ?sorted)"
    by (rule sorted_wrt_mono_rel [OF _ s]) (simp add: by_item_def)
  then have "sorted_wrt (\<lambda>a b. localeCompare a b \<le> 0) (map item (filter has_addresses ?sorted))"
    by (simp add: sorted_wrt_map)
  then show "sorted_wrt (\<lambda>a b. localeCompare a b \<le> 0)
           (printed_hosts (report localeCompare subdomains resolved))"
    by (simp only: hosts)
  show "\<exists>ls. report localeCompare subdomains resolved =
            ls @ [Total_found (length subdomains),
                  Successfully_resolved (size (filter_mset has_addresses (mset resolved)))]"
    by (simp only: report_eq) blast
qed

text \<open>An example: the failure and the host without addresses are dropped.\<close>

lemma report_example:
  "report code_unit_compare [''a.example.com'', ''b.example.com'', ''c.example.com'', ''d.example.com'']
     resolved0 =
     [Host ''a.example.com'', Address ''192.0.2.1'', Address ''192.0.2.2'',
      Host ''c.example.com'', Address ''192.0.2.3'', Total_found 4, Successfully_resolved 2]"
  by code_simp

lemma main_with_candidates:
  assumes f: "fetchSubdomains (toLowerCase arg) res = Inr subdomains"
    and ne: "subdomains \<noteq> []"
    and len: "length subdomains \<le> length schedule"
  shows "\<exists>resolved.
           concurrencyMap subdomains (resolveHost d) MAX_CONCURRENT schedule = Some resolved \<and>
           mset resolved = mset (map (record_outcome (resolveHost d)) subdomains) \<and>
           main localeCompare arg res d schedule =
             Some (Inr (Found (length subdomains) # report localeCompare subdomains resolved))"
proof -
  have "1 \<le> MAX_CONCURRENT" by (simp add: MAX_CONCURRENT_def)
  from concurrencyMap_run_completes [OF this len, of "resolveHost d"]
  obtain st where run: "concurrencyMap_run subdomains (resolveHost d) MAX_CONCURRENT schedule = Some st"
    and inv: "sched_inv subdomains (resolveHost d) st" and live: "sched_live subdomains st"
    and fin: "pending st = []"
    by blast
  have m: "mset (out st) = mset (map (record_outcome (resolveHost d)) subdomains)"
    using sched_final(2) [OF inv live fin] .
  have c: "concurrencyMap subdomains (resolveHost d) MAX_CONCURRENT schedule = Some (out st)"
    using run by (simp add: concurrencyMap_def)
  have "main localeCompare arg res d schedule =
      Some (Inr (Found (length subdomains) # report localeCompare subdomains (out st)))"
    using f ne c by (simp add: main_def)
  with c m show ?thesis by blast
qed

lemma has_addresses_record_outcome:
  "has_addresses (record_outcome (resolveHost d) h) \<longleftrightarrow> resolveHost d h \<noteq> Inr []"
  by (simp add: record_outcome_def resolveHost_eq)

lemma resolved_hosts_of_candidates:
  assumes "mset resolved = mset (map (record_outcome (resolveHost d)) subdomains)"
  shows "image_mset item (filter_mset has_addresses (mset resolved)) =
         filter_mset (\<lambda>h. resolveHost d h \<noteq> Inr []) (mset subdomains)"
proof -
  have "image_mset item (filter_mset has_addresses (mset (map (record_outcome (resolveHost d)) xs))) =
      filter_mset (\<lambda>h. resolveHost d h \<noteq> Inr []) (mset xs)" for xs
    by (induction xs) (simp_all add: has_addresses_record_outcome item_record_outcome)
  with assms show ?thesis by simp
qed

lemma printed_hosts_host_lines:
  "printed_hosts (concat (map host_lines (filter has_addresses rs))) =
     map item (filter has_addresses rs)"
proof (induction rs)
  case Nil
  show ?case by simp
next
  case (Cons r rs)
  then show ?case by (cases r) (simp_all add: printed_hosts_addresses)
qed

text \<open>
  Claim C5 fails as stated, for every set of outcomes: when no candidate was found
  \<open>main\<close> returns before the report and prints no summary.
\<close>

theorem main_without_candidates_prints_no_summary:
  "main code_unit_compare ''example.com'' (Resolved (JArr [])) dns1 [] =
     Some (Inr [Found 0, NoSubdomainsFound])"
  by code_simp

text \<open>
  Claim C5, amended. In the subfinder script, for every list of outcomes the report loop
  prints exactly the hosts with at least one address, in the order of the locale
  comparison (a consistent comparator), and then the summary of candidates and resolved
  hosts. \<open>main\<close> runs the loop when at least one candidate was found: once the lookups
  have settled it prints exactly the candidates that resolved to at least one address, in
  that order, and the summary with the number of candidates and the number of those
  hosts. When no candidate was found it prints that, and no summary.
\<close>

theorem main_prints_resolved_hosts_sorted:
  assumes cmp: "consistent_comparator localeCompare"
  shows "(mset (printed_hosts (report localeCompare subdomains resolved)) =
            image_mset item (filter_mset has_addresses (mset resolved)) \<and>
          sorted_wrt (\<lambda>a b. localeCompare a b \<le> 0)
            (printed_hosts (report localeCompare subdomains resolved)) \<and>
          (\<exists>ls. report localeCompare subdomains resolved =
             ls @ [Total_found (length subdomains),
                   Successfully_resolved (size (filter_mset has_addresses (mset resolved)))])) \<and>
         (fetchSubdomains (toLowerCase arg) res = Inr candidates \<and> candidates \<noteq> [] \<and>
          length candidates \<le> length schedule \<longrightarrow>
            (\<exists>ls. main localeCompare arg res d schedule =
                    Some (Inr (Found (length candidates) # ls @
                      [Total_found (length candidates),
                       Successfully_resolved
                         (size (filter_mset (\<lambda>h. resolveHost d h \<noteq> Inr []) (mset candidates)))])) \<and>
                  mset (printed_hosts ls) =
                    filter_mset (\<lambda>h. resolveHost d h \<noteq> Inr []) (mset candidates) \<and>
                  sorted_wrt (\<lambda>a b. localeCompare a b \<le> 0) (printed_hosts ls))) \<and>
         (fetchSubdomains (toLowerCase arg) res = Inr [] \<longrightarrow>
            main localeCompare arg res d schedule = Some (Inr [Found 0, NoSubdomainsFound]))"
proof (intro conjI impI)
  note r = report_resolved_hosts_sorted [OF cmp]
  show "mset (printed_hosts (report localeCompare subdomains resolved)) =
            image_mset item (filter_mset has_addresses (mset resolved))"
    using r by blast
  show "sorted_wrt (\<lambda>a b. localeCompare a b \<le> 0)
            (printed_hosts (report localeCompare subdomains resolved))"
    using r by blast
  show "\<exists>ls. report localeCompare subdomains resolved =
             ls @ [Total_found (length subdomains),
                   Successfully_resolved (size (filter_mset has_addresses (mset resolved)))]"
    using r by blast
next
  assume a: "fetchSubdomains (toLowerCase arg) res = Inr candidates \<and> candidates \<noteq> [] \<and>
          length candidates \<le> length schedule"
  then have f: "fetchSubdomains (toLowerCase arg) res = Inr candidates"
    and ne: "candidates \<noteq> []" and len: "length candidates \<le> length schedule"
    by simp_all
  from main_with_candidates [OF f ne len, of d localeCompare]
  obtain rs where m: "mset rs = mset (map (record_outcome (resolveHost d)) candidates)"
    and out: "main localeCompare arg res d schedule =
             Some (Inr (Found (length candidates) # report localeCompare candidates rs))"
    by blast
  let ?ok = "filter_mset (\<lambda>h. resolveHost d h \<noteq> Inr []) (mset candidates)"
  have hosts: "image_mset item (filter_mset has_addresses (mset rs)) = ?ok"
    using m by (rule resolved_hosts_of_candidates)
  have sz: "size (filter_mset has_addresses (mset rs)) = size ?ok"
    using arg_cong [OF hosts, of size] by simp
  let ?ls = "concat (map host_lines (filter has_addresses (array_sort (by_item localeCompare) rs)))"
  have rep: "report localeCompare candidates rs =
      ?ls @ [Total_found (length candidates), Successfully_resolved (size ?ok)]"
    by (simp add: report_eq sz)
  have ph: "printed_hosts ?ls = printed_hosts (report localeCompare candidates rs)"
    by (simp only: report_eq printed_hosts_lines printed_hosts_host_lines)
  from report_resolved_hosts_sorted [OF cmp, of candidates rs]
  have "mset (printed_hosts ?ls) = ?ok"
    and "sorted_wrt (\<lambda>a b. localeCompare a b \<le> 0) (printed_hosts ?ls)"
    by (simp_all add: ph hosts)
  with out rep
  show "\<exists>ls. main localeCompare arg res d schedule =
                    Some (Inr (Found (length candidates) # ls @
                      [Total_found (length candidates), Successfully_resolved (size ?ok)])) \<and>
                  mset (printed_hosts ls) = ?ok \<and>
                  sorted_wrt (\<lambda>a b. localeCompare a b \<le> 0) (printed_hosts ls)"
    by auto
next
  assume "fetchSubdomains (toLowerCase arg) res = Inr []"
  then show "main localeCompare arg res d schedule = Some (Inr [Found 0, NoSubdomainsFound])"
    by (simp add: main_def)
qed


text \<open>Three candidates, of which \<open>b.example.com\<close> does not resolve: 3 found, 2 resolved.\<close>

lemma fetchSubdomains_example:
  "fetchSubdomains (toLowerCase ''Example.com'') (crt_response crt_names0) =
     Inr [''a.example.com'', ''b.example.com'', ''c.example.com'']"
  by code_simp

lemma main_example:
  "main code_unit_compare ''Example.com'' (crt_response crt_names0) dns1 [2, 0, 0] =
     Some (Inr [Found 3, Host ''a.example.com'', Address ''192.0.2.1'',
                Host ''c.example.com'', Address ''192.0.2.1'',
                Total_found 3, Successfully_resolved 2])"
  by code_simp

theorem main_prints_resolved_hosts_sorted_witness:
  "consistent_comparator code_unit_compare \<and>
   fetchSubdomains (toLowerCase ''Example.com'') (crt_response crt_names0) =
     Inr [''a.example.com'', ''b.example.com'', ''c.example.com''] \<and>
   [''a.example.com'', ''b.example.com'', ''c.example.com''] \<noteq> [] \<and>
   length [''a.example.com'', ''b.example.com'', ''c.example.com''] \<le> length [2, 0, 0 :: nat] \<and>
   (\<exists>ls. main code_unit_compare ''Example.com'' (crt_response crt_names0) dns1 [2, 0, 0] =
           Some (Inr (Found (length [''a.example.com'', ''b.example.com'', ''c.example.com'']) # ls @
             [Total_found (length [''a.example.com'', ''b.example.com'', ''c.example.com'']),
              Successfully_resolved
                (size (filter_mset (\<lambda>h. resolveHost dns1 h \<noteq> Inr [])
                   (mset [''a.example.com'', ''b.example.com'', ''c.example.com''])))])) \<and>
         mset (printed_hosts ls) =
           filter_mset (\<lambda>h. resolveHost dns1 h \<noteq> Inr [])
             (mset [''a.example.com'', ''b.example.com'', ''c.example.com'']) \<and>
         sorted_wrt (\<lambda>a b. code_unit_compare a b \<le> 0) (printed_hosts ls)) \<and>
   fetchSubdomains (toLowerCase ''Example.com'') (Resolved (JArr [])) = Inr [] \<and>
   main code_unit_compare ''Example.com'' (Resolved (JArr [])) dns1 [] =
     Some (Inr [Found 0, NoSubdomainsFound])"
proof -
  have h1: "fetchSubdomains (toLowerCase ''Example.com'') (crt_response crt_names0) =
     Inr [''a.example.com'', ''b.example.com'', ''c.example.com'']"
    by (rule fetchSubdomains_example)
  have h2: "[''a.example.com'', ''b.example.com'', ''c.example.com''] \<noteq> []" by simp
  have h3: "length [''a.example.com'', ''b.example.com'', ''c.example.com''] \<le> length [2, 0, 0 :: nat]"
    by simp
  have h4: "fetchSubdomains (toLowerCase ''Example.com'') (Resolved (JArr [])) = Inr []"
    by code_simp
  note t1 = main_prints_resolved_hosts_sorted [OF consistent_code_unit_compare,
      of _ _ "''Example.com''" "crt_response crt_names0"
         "[''a.example.com'', ''b.example.com'', ''c.example.com'']" "[2, 0, 0]" dns1]
  note t2 = main_prints_resolved_hosts_sorted [OF consistent_code_unit_compare,
      of _ _ "''Example.com''" "Resolved (JArr [])" _ "[]" dns1]
  from t1 h1 h2 h3
  have a: "\<exists>ls. main code_unit_compare ''Example.com'' (crt_response crt_names0) dns1 [2, 0, 0] =
           Some (Inr (Found (length [''a.example.com'', ''b.example.com'', ''c.example.com'']) # ls @
             [Total_found (length [''a.example.com'', ''b.example.com'', ''c.example.com'']),
              Successfully_resolved
                (size (filter_mset (\<lambda>h. resolveHost dns1 h \<noteq> Inr [])
                   (mset [''a.example.com'', ''b.example.com'', ''c.example.com''])))])) \<and>
         mset (printed_hosts ls) =
           filter_mset (\<lambda>h. resolveHost dns1 h \<noteq> Inr [])
             (mset [''a.example.com'', ''b.example.com'', ''c.example.com'']) \<and>
         sorted_wrt (\<lambda>a b. code_unit_compare a b \<le> 0) (printed_hosts ls)"
    by blast
  from t2 h4
  have b: "main code_unit_compare ''Example.com'' (Resolved (JArr [])) dns1 [] =
     Some (Inr [Found 0, NoSubdomainsFound])"
    by blast
  from consistent_code_unit_compare h1 h2 h3 a h4 b show ?thesis by (intro conjI)
qed

text \<open>
  The interactive variant (\<open>subdomain.js\<close>) keeps the resolved hosts in the order of
  the candidates and does not sort them.
\<close>

lemma dyn_resolveSubdomains_example:
  "dyn_resolveSubdomains (dns0\<lparr>resolve4 := (\<lambda>h. if h = ''b.example.com'' then Inl (DnsError ''ENOTFOUND'') else Inr [''192.0.2.1''])\<rparr>)
     [''c.example.com'', ''b.example.com'', ''a.example.com''] =
     [(''c.example.com'', [''192.0.2.1'']), (''a.example.com'', [''192.0.2.1''])]"
  by code_simp

section \<open>The report and the order of arrival (C6)\<close>

text \<open>
  When only identical records have hosts that the comparison ties, the sorted order is
  unique and the report does not depend on the order of arrival.
\<close>

lemma report_order_independent:
  fixes xs ys :: "(string, string list) outcome list"
  assumes "consistent_comparator localeCompare"
    and "\<forall>a \<in> set xs. \<forall>b \<in> set xs.
           localeCompare (item a) (item b) \<le> 0 \<and> localeCompare (item b) (item a) \<le> 0 \<longrightarrow> a = b"
    and "mset xs = mset ys"
  shows "report localeCompare subdomains xs = report localeCompare subdomains ys"
proof -
  have "array_sort (by_item localeCompare) xs = array_sort (by_item localeCompare) ys"
  proof (rule sorted_unique [where le = "by_item localeCompare"])
    show "sorted_wrt (by_item localeCompare) (array_sort (by_item localeCompare) xs)"
      using assms(1) by (rule sorted_by_item)
    show "sorted_wrt (by_item localeCompare) (array_sort (by_item localeCompare) ys)"
      using assms(1) by (rule sorted_by_item)
    show "mset (array_sort (by_item localeCompare) xs) = mset (array_sort (by_item localeCompare) ys)"
      using assms(3) by (simp add: mset_array_sort)
    have "set (array_sort (by_item localeCompare) xs) = set xs"
      by (metis mset_array_sort set_mset_mset)
    with assms(2)
    show "\<forall>a \<in> set (array_sort (by_item localeCompare) xs).
            \<forall>b \<in> set (array_sort (by_item localeCompare) xs).
              by_item localeCompare a b \<longrightarrow> by_item localeCompare b a \<longrightarrow> a = b"
      by (simp add: by_item_def)
  qed
  then show ?thesis by (simp add: report_eq assms(3))
qed

text \<open>
  Claim C6 fails as stated. The sort is stable and a locale comparison ties names that
  differ in ignorable characters only, as \<open>ab.example.com\<close> and the same name with a
  soft hyphen: both are candidates, both resolve, and they are printed in the order in
  which their lookups settled.
\<close>

theorem report_tied_hosts_order_dependent:
  "consistent_comparator collation_compare \<and>
   shy_host \<noteq> ''ab.example.com'' \<and>
   collation_compare ''ab.example.com'' shy_host = 0 \<and>
   main collation_compare ''example.com''
     (crt_response (''ab.example.com'' @ [CHR 0x0A] @ shy_host)) dns1 [0, 0] =
     Some (Inr [Found 2, Host ''ab.example.com'', Address ''192.0.2.1'',
                Host shy_host, Address ''192.0.2.1'', Total_found 2, Successfully_resolved 2]) \<and>
   main collation_compare ''example.com''
     (crt_response (''ab.example.com'' @ [CHR 0x0A] @ shy_host)) dns1 [1, 0] =
     Some (Inr [Found 2, Host shy_host, Address ''192.0.2.1'',
                Host ''ab.example.com'', Address ''192.0.2.1'', Total_found 2, Successfully_resolved 2]) \<and>
   mset [Result ''ab.example.com'' [''192.0.2.1''], Result shy_host [''192.0.2.1'']] =
   mset [Result shy_host [''192.0.2.1''], Result ''ab.example.com'' [''192.0.2.1'']] \<and>
   report collation_compare [''ab.example.com'', shy_host]
     [Result ''ab.example.com'' [''192.0.2.1''], Result shy_host [''192.0.2.1'']] \<noteq>
   report collation_compare [''ab.example.com'', shy_host]
     [Result shy_host [''192.0.2.1''], Result ''ab.example.com'' [''192.0.2.1'']]"
proof (intro conjI)
  show "consistent_comparator collation_compare" by (rule consistent_collation_compare)
  show "shy_host \<noteq> ''ab.example.com''" by code_simp
  show "collation_compare ''ab.example.com'' shy_host = 0" by code_simp
  show "main collation_compare ''example.com''
     (crt_response (''ab.example.com'' @ [CHR 0x0A] @ shy_host)) dns1 [0, 0] =
     Some (Inr [Found 2, Host ''ab.example.com'', Address ''192.0.2.1'',
                Host shy_host, Address ''192.0.2.1'', Total_found 2, Successfully_resolved 2])"
    by code_simp
  show "main collation_compare ''example.com''
     (crt_response (''ab.example.com'' @ [CHR 0x0A] @ shy_host)) dns1 [1, 0] =
     Some (Inr [Found 2, Host shy_host, Address ''192.0.2.1'',
                Host ''ab.example.com'', Address ''192.0.2.1'', Total_found 2, Successfully_resolved 2])"
    by code_simp
  show "mset [Result ''ab.example.com'' [''192.0.2.1''], Result shy_host [''192.0.2.1'']] =
   mset [Result shy_host [''192.0.2.1''], Result ''ab.example.com'' [''192.0.2.1'']]"
    by (simp add: add_mset_commute)
  show "report collation_compare [''ab.example.com'', shy_host]
     [Result ''ab.example.com'' [''192.0.2.1''], Result shy_host [''192.0.2.1'']] \<noteq>
   report collation_compare [''ab.example.com'', shy_host]
     [Result shy_host [''192.0.2.1''], Result ''ab.example.com'' [''192.0.2.1'']]"
    by code_simp
qed

lemma mset_concat_map:
  assumes "mset xs = mset ys"
  shows "mset (concat (map f xs)) = mset (concat (map f ys))"
proof -
  have "mset (concat (map f zs)) = sum_mset (image_mset (\<lambda>z. mset (f z)) (mset zs))" for zs
    by (induction zs) simp_all
  with assms show ?thesis by simp
qed

text \<open>
  Claim C6, amended. For every multiset of outcomes, the report of any permutation has
  the same summary counts and the same lines up to their order; the order of the lines,
  and so the whole report, is the same as well whenever the comparison is a consistent
  comparator and only identical records have hosts that it ties (so whenever it tells the
  hosts apart).
\<close>

theorem report_same_for_every_order:
  fixes xs ys :: "(string, string list) outcome list"
  assumes perm: "mset xs = mset ys"
  shows "(\<exists>ls ls'.
            report localeCompare subdomains xs =
              ls @ [Total_found (length subdomains),
                    Successfully_resolved (size (filter_mset has_addresses (mset xs)))] \<and>
            report localeCompare subdomains ys =
              ls' @ [Total_found (length subdomains),
                     Successfully_resolved (size (filter_mset has_addresses (mset xs)))] \<and>
            mset ls = mset ls') \<and>
         (consistent_comparator localeCompare \<and>
          (\<forall>a \<in> set xs. \<forall>b \<in> set xs.
             localeCompare (item a) (item b) \<le> 0 \<and> localeCompare (item b) (item a) \<le> 0 \<longrightarrow> a = b) \<longrightarrow>
          report localeCompare subdomains xs = report localeCompare subdomains ys)"
proof (intro conjI impI)
  let ?sel = "\<lambda>zs. filter has_addresses (array_sort (by_item localeCompare) zs)"
  have "mset (?sel xs) = mset (?sel ys)"
    by (simp add: mset_array_sort perm)
  then have "mset (concat (map host_lines (?sel xs))) = mset (concat (map host_lines (?sel ys)))"
    by (rule mset_concat_map)
  moreover have "report localeCompare subdomains xs =
      concat (map host_lines (?sel xs)) @
      [Total_found (length subdomains),
       Successfully_resolved (size (filter_mset has_addresses (mset xs)))]"
    by (rule report_eq)
  moreover have "report localeCompare subdomains ys =
      concat (map host_lines (?sel ys)) @
      [Total_found (length subdomains),
       Successfully_resolved (size (filter_mset has_addresses (mset xs)))]"
    by (simp only: report_eq perm)
  ultimately show "\<exists>ls ls'.
            report localeCompare subdomains xs =
              ls @ [Total_found (length subdomains),
                    Successfully_resolved (size (filter_mset has_addresses (mset xs)))] \<and>
            report localeCompare subdomains ys =
              ls' @ [Total_found (length subdomains),
                     Successfully_resolved (size (filter_mset has_addresses (mset xs)))] \<and>
            mset ls = mset ls'"
    by blast
next
  assume a: "consistent_comparator localeCompare \<and>
          (\<forall>a \<in> set xs. \<forall>b \<in> set xs.
             localeCompare (item a) (item b) \<le> 0 \<and> localeCompare (item b) (item a) \<le> 0 \<longrightarrow> a = b)"
  then show "report localeCompare subdomains xs = report localeCompare subdomains ys"
    using report_order_independent [of localeCompare xs ys subdomains] perm by blast
qed

theorem report_same_for_every_order_witness:
  "mset resolved0 = mset (rev resolved0) \<and>
   consistent_comparator code_unit_compare \<and>
   distinct (map item resolved0) \<and>
   report code_unit_compare [''a.example.com''] resolved0 =
     report code_unit_compare [''a.example.com''] (rev resolved0)"
proof -
  have d: "distinct (map item resolved0)" by (simp add: resolved0_def)
  then have inj: "inj_on item (set resolved0)" by (simp add: distinct_map)
  have ties: "\<forall>a \<in> set resolved0. \<forall>b \<in> set resolved0.
      code_unit_compare (item a) (item b) \<le> 0 \<and> code_unit_compare (item b) (item a) \<le> 0 \<longrightarrow> a = b"
    using code_unit_compare_antisym inj by (blast dest: inj_onD)
  have m: "mset resolved0 = mset (rev resolved0)" by simp
  from report_same_for_every_order [OF m, of code_unit_compare "[''a.example.com'']"]
    consistent_code_unit_compare ties
  have "report code_unit_compare [''a.example.com''] resolved0 =
     report code_unit_compare [''a.example.com''] (rev resolved0)"
    by blast
  with m consistent_code_unit_compare d show ?thesis by (intro conjI)
qed


section \<open>The wild-card prefix (C4)\<close>

lemma trim_wildcard:
  "trim (CHR ''*'' # CHR ''.'' # r) = CHR ''*'' # CHR ''.'' # rev (dropWhile isWhiteSpace (rev r))"
proof -
  have star: "\<not> isWhiteSpace CHR ''*''" and dot: "\<not> isWhiteSpace CHR ''.''"
    by (simp_all add: isWhiteSpace_def)
  have "dropWhile isWhiteSpace (rev r @ [CHR ''.'', CHR ''*'']) =
      dropWhile isWhiteSpace (rev r) @ [CHR ''.'', CHR ''*'']"
    using dot by (simp add: dropWhile_append)
  with star show ?thesis by (simp add: trim_def)
qed

text \<open>
  The subfinder script: for every raw candidate that begins with \<open>*.\<close>, the name that is
  checked against the domain is the candidate without this one leading \<open>*.\<close> (and
  without the white space at its end); when it ends with the domain, that name in lower
  case is what is added to the set of candidates, and not the literal wild-card name; a
  second \<open>*.\<close> stays.
\<close>

lemma normalize_name_strips_one_wildcard:
  "replace_wildcard (trim (CHR ''*'' # CHR ''.'' # r)) = rev (dropWhile isWhiteSpace (rev r)) \<and>
   normalize_name (CHR ''*'' # CHR ''.'' # r) domain =
     (if endsWith (rev (dropWhile isWhiteSpace (rev r))) domain
      then Some (toLowerCase (rev (dropWhile isWhiteSpace (rev r)))) else None)"
  by (simp add: normalize_name_def trim_wildcard)

lemma normalize_name_wildcard_examples:
  "normalize_name ''*.example.com'' ''example.com'' = Some ''example.com'' \<and>
   normalize_name ''*.*.example.com'' ''example.com'' = Some ''*.example.com''"
  using normalize_name_strips_one_wildcard [of "''example.com''" "''example.com''"]
    normalize_name_strips_one_wildcard [of "''*.example.com''" "''example.com''"]
  by (simp add: isWhiteSpace_def endsWith_def toLowerCase_def toLowerCase_unit_def)

lemma add_name_strips_one_wildcard:
  "add_name domain (CHR ''*'' # CHR ''.'' # r) subs =
     (if endsWith (rev (dropWhile isWhiteSpace (rev r))) domain
      then set_add (toLowerCase (rev (dropWhile isWhiteSpace (rev r)))) subs else subs)"
  by (simp add: add_name_def normalize_name_strips_one_wildcard)

text \<open>The interactive script has no such step.\<close>

lemma dyn_normalize_name_keeps_wildcard:
  "dyn_normalize_name ''*.example.com'' ''example.com'' = Some ''*.example.com''"
  by code_simp

text \<open>
  Claim C4 asks that a wild-card entry contributes its base domain to the set of
  candidates. \<open>fetchSubdomains\<close> of the interactive script (\<open>subdomain.js\<close>) keeps
  \<open>*.example.com\<close> as a literal host, where the subfinder script gives \<open>example.com\<close>.
\<close>

theorem interactive_fetchSubdomains_keeps_wildcard:
  "dyn_fetchSubdomains ''example.com'' (crt_response ''*.example.com'') = Inr [''*.example.com''] \<and>
   fetchSubdomains ''example.com'' (crt_response ''*.example.com'') = Inr [''example.com'']"
  by code_simp

section \<open>The suffix check (C1)\<close>

text \<open>What the code accepts: the names that end with the domain, at a label boundary or not.\<close>

lemma normalize_name_iff:
  "(\<exists>h. normalize_name n domain = Some h) \<longleftrightarrow> endsWith (replace_wildcard (trim n)) domain"
  by (simp add: normalize_name_def Let_def)

text \<open>
  Claim C1 asks that a candidate is accepted only when it equals the domain or ends with
  a dot and the domain. The code accepts \<open>evilexample.com\<close> for \<open>example.com\<close>, in both
  scripts; the candidates of the specification's scenario give four names, not three.
\<close>

theorem normalize_name_accepts_without_label_boundary:
  "normalize_name ''evilexample.com'' ''example.com'' = Some ''evilexample.com'' \<and>
   dyn_normalize_name ''evilexample.com'' ''example.com'' = Some ''evilexample.com'' \<and>
   fetchSubdomains ''example.com''
     (Resolved (JArr [JObj [(''name_value'',
        JStr ''*.example.com\<newline>WWW.example.com \<newline>api.example.com\<newline>evilexample.com'')]])) =
     Inr [''api.example.com'', ''evilexample.com'', ''example.com'', ''www.example.com'']"
  by code_simp

text \<open>The suffix is checked before the name is put in lower case.\<close>

lemma normalize_name_case_before_lowering:
  "normalize_name ''WWW.EXAMPLE.COM'' ''example.com'' = None"
  by code_simp

section \<open>A failed query gives no candidates (C7)\<close>

lemma array_sort_Nil: "array_sort le [] = []"
  by (simp add: array_sort_def)

text \<open>
  Claim C7. \<open>fetchSubdomains\<close> never lets an exception out, in either script; when the
  query fails (the request rejects: network error, timeout, status outside 2xx; or the
  body is not a JSON array, malformed JSON being a string) it returns the empty list, and
  \<open>main\<close> goes on to report that no subdomains were found.
\<close>

theorem fetchSubdomains_failure_empty:
  "(\<exists>subs. fetchSubdomains domain res = Inr subs) \<and>
   (\<exists>subs. dyn_fetchSubdomains domain res = Inr subs) \<and>
   (query_failed res \<longrightarrow>
      fetchSubdomains domain res = Inr [] \<and>
      dyn_fetchSubdomains domain res = Inr [] \<and>
      main localeCompare arg res d schedule = Some (Inr [Found 0, NoSubdomainsFound]))"
proof (intro conjI impI)
  show "\<exists>subs. fetchSubdomains domain res = Inr subs"
    by (simp add: fetchSubdomains_def split: sum.splits)
  show "\<exists>subs. dyn_fetchSubdomains domain res = Inr subs"
    by (simp add: dyn_fetchSubdomains_def split: sum.splits)
  assume failed: "query_failed res"
  have empty: "fetchSubdomains dom res = Inr []" for dom
    using failed
    by (simp add: query_failed_def fetchSubdomains_def fetchSubdomains_try_def array_sort_Nil
        split: http_result.splits json.splits)
  show "fetchSubdomains domain res = Inr []" by (rule empty)
  show "dyn_fetchSubdomains domain res = Inr []"
    using failed
    by (simp add: query_failed_def dyn_fetchSubdomains_def dyn_fetchSubdomains_try_def
        split: http_result.splits json.splits)
  show "main localeCompare arg res d schedule = Some (Inr [Found 0, NoSubdomainsFound])"
    by (simp add: main_def empty)
qed

theorem fetchSubdomains_failure_empty_witness:
  "query_failed (Rejected ''timeout of 20000ms exceeded'') \<and>
   fetchSubdomains ''example.com'' (Rejected ''timeout of 20000ms exceeded'') = Inr [] \<and>
   main code_unit_compare ''Example.com'' (Rejected ''timeout of 20000ms exceeded'') dns0 [] =
     Some (Inr [Found 0, NoSubdomainsFound]) \<and>
   query_failed (Resolved (JStr ''<html>'')) \<and>
   fetchSubdomains ''example.com'' (Resolved (JStr ''<html>'')) = Inr [] \<and>
   dyn_fetchSubdomains ''example.com'' (Resolved (JStr ''<html>'')) = Inr []"
proof -
  have h1: "query_failed (Rejected ''timeout of 20000ms exceeded'')"
    and h2: "query_failed (Resolved (JStr ''<html>''))"
    by (simp_all add: query_failed_def)
  from h1 h2
    fetchSubdomains_failure_empty [of "''example.com''" "Rejected ''timeout of 20000ms exceeded''"
      code_unit_compare "''Example.com''" dns0 "[]"]
    fetchSubdomains_failure_empty [of "''example.com''" "Resolved (JStr ''<html>'')"]
  show ?thesis by blast
qed

text \<open>An array with an entry that is not a record of the log gives the empty list as well.\<close>

lemma fetchSubdomains_malformed_entry:
  "fetchSubdomains ''example.com'' (Resolved (JArr [JObj [(''name_value'', JStr ''a.example.com'')], JNull])) = Inr [] \<and>
   fetchSubdomains ''example.com'' (Resolved (JArr [JObj [(''name_value'', JNum 7)]])) = Inr []"
  by code_simp


end
